theory Spec2Isabelle
  imports Main "HOL-Library.Sublist"
begin

section \<open>Characters, buffers and pointers\<close>

text \<open>
  The extraction engine of \<^verbatim>\<open>html_extract_text.cpp\<close> scans NUL-terminated
  \<^verbatim>\<open>wchar_t\<close> buffers through raw pointers. A wide character is modelled by its code
  unit (a natural number), a buffer by the list of its characters before the terminator,
  and a pointer into a buffer by an index. Reading at the index \<open>length buf\<close> yields the
  terminator \<open>0\<close>; the scanning functions stop at the first \<open>0\<close> they read, so an index
  past the terminator is never dereferenced by them. A null pointer is \<open>None\<close>.
\<close>

type_synonym wchar = nat
type_synonym wstring = "wchar list"

definition L :: "string \<Rightarrow> wstring" where
  "L s = map of_char s"

definition at :: "wstring \<Rightarrow> nat \<Rightarrow> wchar" where
  "at buf i = (if i < length buf then buf ! i else 0)"

text \<open>\<^verbatim>\<open>std::wstring(ptr, n)\<close>: the \<open>n\<close> characters starting at \<open>ptr\<close>.\<close>

definition span :: "wstring \<Rightarrow> nat \<Rightarrow> nat \<Rightarrow> wstring" where
  "span buf p n = map (at buf) [p..<p + n]"

text \<open>
  Modelled from the spec: \<^verbatim>\<open>std::towlower\<close> and \<^verbatim>\<open>std::iswspace\<close> are library
  functions whose result depends on the locale; the model is the "C" locale, where only the
  ASCII letters have a lower case and the white space is blank, tab, line feed, vertical tab,
  form feed and carriage return.
\<close>

definition towlower :: "wchar \<Rightarrow> wchar" where
  "towlower c = (if 65 \<le> c \<and> c \<le> 90 then c + 32 else c)"

definition iswspace :: "wchar \<Rightarrow> bool" where
  "iswspace c = (c = 32 \<or> (9 \<le> c \<and> c \<le> 13))"

definition is_either :: "'a \<Rightarrow> 'a \<Rightarrow> 'a \<Rightarrow> bool" where
  "is_either value first second = (value = first \<or> value = second)"

section \<open>Symbol font table\<close>






section \<open>HTML entity table\<close>



section \<open>Quote-aware substring search\<close>

text \<open>
  \<^verbatim>\<open>stristr_not_quoted\<close>, inner \<^verbatim>\<open>for\<close> loop: compares the needle with the text at
  \<open>string\<close> one character at a time, updating the two quote flags on the way. The result is
  \<open>None\<close> when the terminator is read (the function returns null), otherwise the value of
  \<open>i\<close> at which the loop stopped and the flags.
\<close>

function stristr_compare ::
  "wstring \<Rightarrow> nat \<Rightarrow> wstring \<Rightarrow> nat \<Rightarrow> nat \<Rightarrow> bool \<Rightarrow> bool \<Rightarrow> (nat \<times> bool \<times> bool) option" where
  "stristr_compare buf string strSearch strSearchSize i inq insq =
     (if i < strSearchSize then
        (if at buf (string + i) = 0 then None
         else
           (let (inq', insq') =
                  (if at buf (string + i) = 0x22 then (\<not> inq, False)
                   else if (\<not> inq \<or> insq) \<and> at buf string = 0x27 then (\<not> inq, True)
                   else (inq, insq))
            in if towlower (at strSearch i) \<noteq> towlower (at buf (string + i))
               then Some (i, inq', insq')
               else stristr_compare buf string strSearch strSearchSize (i + 1) inq' insq'))
      else Some (i, inq, insq))"
  by pat_completeness auto
termination
  by (relation "measure (\<lambda>(buf, string, strSearch, strSearchSize, i, inq, insq). strSearchSize - i)")
     auto

declare stristr_compare.simps [simp del]

text \<open>
  The outer \<^verbatim>\<open>while\<close> loop. The function is entered only with
  \<open>strSearchSize \<noteq> 0\<close> (the guard of \<^verbatim>\<open>stristr_not_quoted\<close>); the loop repeats
  that test, on which its termination rests.
\<close>

function stristr_not_quoted_loop ::
  "wstring \<Rightarrow> nat \<Rightarrow> nat \<Rightarrow> wstring \<Rightarrow> nat \<Rightarrow> bool \<Rightarrow> bool \<Rightarrow> nat option" where
  "stristr_not_quoted_loop buf string endSentinel strSearch strSearchSize inq insq =
     (if strSearchSize \<noteq> 0 \<and> string + strSearchSize \<le> endSentinel then
        (case stristr_compare buf string strSearch strSearchSize 0 inq insq of
           None \<Rightarrow> None
         | Some (i, inq', insq') \<Rightarrow>
             if i = strSearchSize then
               (if \<not> inq' then Some string
                else stristr_not_quoted_loop buf (string + strSearchSize) endSentinel
                       strSearch strSearchSize inq' insq')
             else stristr_not_quoted_loop buf (string + (i + 1)) endSentinel
                    strSearch strSearchSize inq' insq')
      else None)"
  by pat_completeness auto
termination
  by (relation "measure (\<lambda>(buf, string, endSentinel, strSearch, strSearchSize, inq, insq).
                    Suc endSentinel - string)")
     auto

declare stristr_not_quoted_loop.simps [simp del]

definition stristr_not_quoted :: "wstring \<Rightarrow> nat \<Rightarrow> nat \<Rightarrow> wstring \<Rightarrow> nat \<Rightarrow> nat option" where
  "stristr_not_quoted buf string stringSize strSearch strSearchSize =
     (if stringSize = 0 \<or> strSearchSize = 0 then None
      else stristr_not_quoted_loop buf string (string + stringSize)
             strSearch strSearchSize False False)"

section \<open>Tag and element locator\<close>

text \<open>
  \<^verbatim>\<open>std::wcschr\<close>: the first occurrence of \<open>ch\<close> at or after \<open>p\<close>, the
  terminator included; null when the terminator comes first.
\<close>

function wcschr :: "wstring \<Rightarrow> nat \<Rightarrow> wchar \<Rightarrow> nat option" where
  "wcschr buf p ch =
     (if at buf p = ch then Some p
      else if at buf p = 0 then None
      else wcschr buf (p + 1) ch)"
  by pat_completeness auto
termination
  by (relation "measure (\<lambda>(buf, p, ch). length buf - p)") (auto simp: at_def split: if_splits)

declare wcschr.simps [simp del]

text \<open>The position of the terminator at or after \<open>p\<close> (\<^verbatim>\<open>p + wcslen(p)\<close>).\<close>

function wcs_end :: "wstring \<Rightarrow> nat \<Rightarrow> nat" where
  "wcs_end buf p = (if at buf p = 0 then p else wcs_end buf (p + 1))"
  by pat_completeness auto
termination
  by (relation "measure (\<lambda>(buf, p). length buf - p)") (auto simp: at_def split: if_splits)

declare wcs_end.simps [simp del]


text \<open>
  Modelled from the spec: \<^verbatim>\<open>string_util::strnicmp\<close> is declared in a header that is
  not among the sources. The model is the case-insensitive comparison of at most
  \<open>n\<close> characters, which stops after a terminator; a null first argument does not compare
  equal to a string. Only the test \<^verbatim>\<open>strnicmp(...) == 0\<close> occurs in the code, and that
  test is what the function below returns.
\<close>

function strnicmp_is_0 :: "wstring \<Rightarrow> nat \<Rightarrow> wstring \<Rightarrow> nat \<Rightarrow> nat \<Rightarrow> bool" where
  "strnicmp_is_0 buf p lit i charCount =
     (if i < charCount then
        (if towlower (at buf (p + i)) \<noteq> towlower (at lit i) then False
         else if at buf (p + i) = 0 then True
         else strnicmp_is_0 buf p lit (i + 1) charCount)
      else True)"
  by pat_completeness auto
termination
  by (relation "measure (\<lambda>(buf, p, lit, i, charCount). charCount - i)") auto

declare strnicmp_is_0.simps [simp del]

definition strnicmp :: "wstring \<Rightarrow> nat option \<Rightarrow> wstring \<Rightarrow> nat \<Rightarrow> bool" where
  "strnicmp buf first_string second_string charCount =
     (case first_string of
        None \<Rightarrow> False
      | Some p \<Rightarrow> strnicmp_is_0 buf p second_string 0 charCount)"

text \<open>
  \<^verbatim>\<open>find_close_tag\<close>: the loop after the optional step over the opening
  \<^verbatim>\<open><\<close>; \<open>openTagCount\<close> is a \<^verbatim>\<open>long\<close>.
\<close>

function find_close_tag_loop :: "wstring \<Rightarrow> nat \<Rightarrow> bool \<Rightarrow> bool \<Rightarrow> int \<Rightarrow> nat option" where
  "find_close_tag_loop buf text inq insq openTagCount =
     (if at buf text = 0 then None
      else if at buf text = 0x22 then
        find_close_tag_loop buf (text + 1) (\<not> inq) False openTagCount
      else if (\<not> inq \<or> insq) \<and> at buf text = 0x27 then
        find_close_tag_loop buf (text + 1) (\<not> inq) True openTagCount
      else if \<not> inq \<and> at buf text = 0x3C then
        find_close_tag_loop buf (text + 1) inq insq (openTagCount + 1)
      else if \<not> inq \<and> at buf text = 0x3E then
        (if openTagCount = 0 then Some text
         else find_close_tag_loop buf (text + 1) inq insq (openTagCount - 1))
      else find_close_tag_loop buf (text + 1) inq insq openTagCount)"
  by pat_completeness auto
termination
  by (relation "measure (\<lambda>(buf, text, inq, insq, n). length buf - text)")
     (auto simp: at_def split: if_splits)

declare find_close_tag_loop.simps [simp del]

definition find_close_tag :: "wstring \<Rightarrow> nat \<Rightarrow> nat option" where
  "find_close_tag buf text =
     find_close_tag_loop buf (if at buf text = 0x3C then text + 1 else text) False False 0"

text \<open>
  \<^verbatim>\<open>compare_element\<close>, the backward loop over the white space in front of the closing
  \<^verbatim>\<open>></\<close>.
\<close>

function skip_space_back :: "wstring \<Rightarrow> nat \<Rightarrow> nat \<Rightarrow> nat" where
  "skip_space_back buf text closeTag =
     (if closeTag > text \<and> iswspace (at buf closeTag)
      then skip_space_back buf text (closeTag - 1)
      else closeTag)"
  by pat_completeness auto
termination
  by (relation "measure (\<lambda>(buf, text, closeTag). closeTag)") auto

declare skip_space_back.simps [simp del]

definition compare_element :: "wstring \<Rightarrow> nat \<Rightarrow> wstring \<Rightarrow> nat \<Rightarrow> bool \<Rightarrow> bool" where
  "compare_element buf text0 element element_size accept_self_terminating_elements =
     (if element_size = 0 then False
      else if strnicmp buf (Some text0) element element_size then
        (let text = text0 + element_size in
         if at buf text = 0 then False
         else if at buf text = 0x3E then True
         else if accept_self_terminating_elements then
           (at buf text = 0x2F \<or> iswspace (at buf text))
         else if iswspace (at buf text) then
           (case find_close_tag buf text of
              None \<Rightarrow> False
            | Some closeTag \<Rightarrow> at buf (skip_space_back buf text (closeTag - 1)) \<noteq> 0x2F)
         else False)
      else False)"

lemma wcschr_Some:
  "wcschr buf p ch = Some q \<Longrightarrow> p \<le> q \<and> at buf q = ch"
proof (induction buf p ch rule: wcschr.induct)
  case (1 buf p ch)
  then show ?case
    by (subst (asm) (2) wcschr.simps) (auto split: if_splits)
qed

lemma at_nonzero_less: "at buf q \<noteq> 0 \<Longrightarrow> q < length buf"
  by (simp add: at_def split: if_splits)

text \<open>
  \<^verbatim>\<open>find_closing_element\<close>, the \<^verbatim>\<open>while\<close> loop: \<open>start\<close> is the position of
  a \<^verbatim>\<open><\<close> found by \<^verbatim>\<open>wcschr\<close>, \<open>stackSize\<close> a \<^verbatim>\<open>long\<close>.
\<close>

function find_closing_element_loop ::
  "wstring \<Rightarrow> nat \<Rightarrow> wstring \<Rightarrow> nat \<Rightarrow> nat \<Rightarrow> int \<Rightarrow> nat option" where
  "find_closing_element_loop buf sectionEnd elementTag elementTagLength start stackSize =
     (if start + elementTagLength + 1 < sectionEnd then
        (let stackSize' =
               (if at buf (start + 1) = 0x2F \<and>
                   compare_element buf (start + 2) elementTag elementTagLength True
                then stackSize - 1
                else if compare_element buf (start + 1) elementTag elementTagLength True
                then stackSize + 1
                else stackSize)
         in if stackSize' = 0 then Some start
            else (case wcschr buf (start + 1) 0x3C of
                    None \<Rightarrow> None
                  | Some start' \<Rightarrow>
                      find_closing_element_loop buf sectionEnd elementTag elementTagLength
                        start' stackSize'))
      else None)"
  by pat_completeness auto
termination
proof (relation "measure (\<lambda>(buf, sectionEnd, elementTag, elementTagLength, start, stackSize).
                    length buf - start)", goal_cases)
  case 1
  show ?case by simp
next
  case (2 buf sectionEnd elementTag elementTagLength start stackSize x x2)
  from 2(4) have "start + 1 \<le> x2" and "at buf x2 = 0x3C"
    using wcschr_Some by blast+
  then have "start < x2" and "x2 < length buf"
    by (auto intro: at_nonzero_less)
  then show ?case by simp
qed

declare find_closing_element_loop.simps [simp del]

definition find_closing_element ::
  "wstring \<Rightarrow> nat \<Rightarrow> nat \<Rightarrow> wstring \<Rightarrow> nat \<Rightarrow> nat option" where
  "find_closing_element buf sectionStart sectionEnd elementTag elementTagLength =
     (if elementTagLength = 0 then None
      else
        (case wcschr buf sectionStart 0x3C of
           None \<Rightarrow> None
         | Some start0 \<Rightarrow>
             if start0 + elementTagLength > sectionEnd then None
             else
               (let start = start0 + 1 in
                if \<not> compare_element buf start elementTag elementTagLength True \<and>
                   at buf start = 0x2F \<and>
                   compare_element buf (start + 1) elementTag elementTagLength True
                then Some (start - 1)
                else
                  (let sectionStart' =
                         (if compare_element buf start elementTag elementTagLength True
                          then start + elementTagLength else sectionStart)
                   in case wcschr buf sectionStart' 0x3C of
                        None \<Rightarrow> None
                      | Some start' \<Rightarrow>
                          find_closing_element_loop buf sectionEnd elementTag elementTagLength
                            start' 1))))"

section \<open>URL resolution\<close>

text \<open>
  \<^verbatim>\<open>html_url_format\<close> keeps its URLs in \<^verbatim>\<open>std::wstring\<close>s and its positions in
  \<^verbatim>\<open>size_t\<close>s. A \<^verbatim>\<open>std::wstring\<close> is the list of its characters, a \<^verbatim>\<open>size_t\<close> a
  natural number below \<open>2 ^ 64\<close>; \<open>npos\<close> is the largest of them, and subtraction wraps
  around as it does in the code (\<^verbatim>\<open>m_last_slash-1\<close>, \<^verbatim>\<open>lastSlash-1\<close> and
  \<^verbatim>\<open>m_root_url.length()-2\<close> are computed without a test against zero).
\<close>

definition npos :: nat where
  "npos = 2 ^ 64 - 1"

definition size_t_sub :: "nat \<Rightarrow> nat \<Rightarrow> nat" where
  "size_t_sub a b = (if b \<le> a then a - b else a + 2 ^ 64 - b)"

text \<open>
  \<^verbatim>\<open>std::wstring::rfind(ch, pos)\<close>: the last index not above \<open>pos\<close> that holds
  \<open>ch\<close>, or \<open>npos\<close>.
\<close>

function rfind_down :: "wstring \<Rightarrow> wchar \<Rightarrow> nat \<Rightarrow> nat" where
  "rfind_down s ch i =
     (if s ! i = ch then i
      else if i = 0 then npos
      else rfind_down s ch (i - 1))"
  by pat_completeness auto
termination
  by (relation "measure (\<lambda>(s, ch, i). i)") auto

declare rfind_down.simps [simp del]

definition rfind :: "wstring \<Rightarrow> wchar \<Rightarrow> nat \<Rightarrow> nat" where
  "rfind s ch pos = (if s = [] then npos else rfind_down s ch (min pos (length s - 1)))"

text \<open>
  \<^verbatim>\<open>std::wstring::find(ch, pos)\<close>: the first index not below \<open>pos\<close> that holds
  \<open>ch\<close>, or \<open>npos\<close>.
\<close>

function find_up :: "wstring \<Rightarrow> wchar \<Rightarrow> nat \<Rightarrow> nat" where
  "find_up s ch pos =
     (if pos < length s then (if s ! pos = ch then pos else find_up s ch (pos + 1))
      else npos)"
  by pat_completeness auto
termination
  by (relation "measure (\<lambda>(s, ch, pos). length s - pos)") auto

declare find_up.simps [simp del]

record html_url_format =
  m_root_url :: wstring
  m_current_url :: wstring
  m_root_full_domain :: wstring
  m_current_full_domain :: wstring
  m_image_name :: wstring
  m_last_slash :: nat
  m_query :: nat

text \<open>
  \<^verbatim>\<open>find_last_directory\<close> receives the URL and the query position by reference; the
  model returns the position of the last slash, the URL and the query position.
\<close>

definition find_last_directory :: "wstring \<Rightarrow> nat \<times> wstring \<times> nat" where
  "find_last_directory url =
     (let query_postion = rfind url 0x3F npos;
          last_slash = rfind url 0x2F npos;
          last_slash =
            (if query_postion \<noteq> npos \<and> last_slash \<noteq> npos \<and>
                query_postion > 0 \<and> last_slash > 0 \<and> last_slash > query_postion
             then rfind url 0x2F (query_postion - 1) else last_slash)
      in if (last_slash \<noteq> npos \<and> last_slash > 0 \<and> url ! (last_slash - 1) = 0x2F) \<or>
            last_slash = npos
         then (length (url @ [0x2F]) - 1, url @ [0x2F], query_postion)
         else (last_slash, url, query_postion))"

text \<open>
  \<^verbatim>\<open>parse_domain\<close> computes the full domain, the domain and the subdomain of a URL.
  Only the full domain enters the resolution of a path; the domain and the subdomain are
  left out of the model.
\<close>

definition parse_domain :: "wstring \<Rightarrow> wstring" where
  "parse_domain url =
     (let startIndex =
            (if strnicmp url (Some 0) (L ''http://'') 7 then 7
             else if strnicmp url (Some 0) (L ''https://'') 8 then 8
             else if strnicmp url (Some 0) (L ''ftp://'') 6 then 6
             else if strnicmp url (Some 0) (L ''ftps://'') 7 then 7
             else 0);
          lastSlash = find_up url 0x2F startIndex
      in if lastSlash = npos then url else take lastSlash url)"

text \<open>
  Modelled from the spec: \<^verbatim>\<open>string_util::stristr\<close> is declared in a header that is not
  among the sources; the model is the case-insensitive \<^verbatim>\<open>wcsstr\<close>: the first position
  at or after \<open>p\<close> where the needle stands in the text, null when the text ends first.
  The needles of the code are literals without a terminator inside.
\<close>

function stristr :: "wstring \<Rightarrow> nat \<Rightarrow> wstring \<Rightarrow> nat option" where
  "stristr buf p needle =
     (if strnicmp_is_0 buf p needle 0 (length needle) then Some p
      else if at buf p = 0 then None
      else stristr buf (p + 1) needle)"
  by pat_completeness auto
termination
  by (relation "measure (\<lambda>(buf, p, needle). length buf - p)") (auto simp: at_def split: if_splits)

declare stristr.simps [simp del]

text \<open>\<^verbatim>\<open>parse_image_name_from_url\<close>, on the URL as a NUL-terminated string.\<close>

definition parse_image_name_from_url :: "wstring \<Rightarrow> wstring" where
  "parse_image_name_from_url url =
     (if at url 0 = 0 then []
      else
        (case wcschr url 0 0x3F of
           None \<Rightarrow> []
         | Some start0 \<Rightarrow>
             (case stristr url start0 (L ''image='') of
                None \<Rightarrow> []
              | Some start1 \<Rightarrow>
                  (let start = start1 + 6 in
                   case wcschr url start 0x26 of
                     None \<Rightarrow> span url start (wcs_end url start - start)
                   | Some amp \<Rightarrow> span url start (amp - start)))))"

text \<open>
  The constructor. \<^verbatim>\<open>has_query\<close> is declared in the missing header; it is modelled
  from the spec ("cached positions of the last path separator and query marker") as the
  test that a query marker was found.
\<close>

definition has_query :: "html_url_format \<Rightarrow> bool" where
  "has_query u = (m_query u \<noteq> npos)"

definition html_url_format_init :: "wstring \<Rightarrow> html_url_format" where
  "html_url_format_init root_url =
     (let (last_slash, root, query) = find_last_directory root_url;
          u = \<lparr> m_root_url = root, m_current_url = root_url,
                m_root_full_domain = parse_domain root,
                m_current_full_domain = parse_domain root_url,
                m_image_name = [], m_last_slash = last_slash, m_query = query \<rparr>
      in if has_query u then u\<lparr> m_image_name := parse_image_name_from_url root \<rparr> else u)"

text \<open>
  \<^verbatim>\<open>std::wcsncmp(start, L"../", 3) == 0\<close> on the NUL-terminated path.
\<close>

function wcsncmp_is_0 :: "wstring \<Rightarrow> nat \<Rightarrow> wstring \<Rightarrow> nat \<Rightarrow> nat \<Rightarrow> bool" where
  "wcsncmp_is_0 buf p lit i n =
     (if i < n then
        (if at buf (p + i) \<noteq> at lit i then False
         else if at buf (p + i) = 0 then True
         else wcsncmp_is_0 buf p lit (i + 1) n)
      else True)"
  by pat_completeness auto
termination
  by (relation "measure (\<lambda>(buf, p, lit, i, n). n - i)") auto

declare wcsncmp_is_0.simps [simp del]

text \<open>
  The loop that counts the leading \<^verbatim>\<open>../\<close> of the path: \<open>start\<close> is always
  \<open>path + 3 * folderLevelsToGoUp\<close>.
\<close>

function count_folder_levels :: "wstring \<Rightarrow> nat \<Rightarrow> nat" where
  "count_folder_levels path folderLevelsToGoUp =
     (if wcsncmp_is_0 path (3 * folderLevelsToGoUp) (L ''../'') 0 3
      then count_folder_levels path (folderLevelsToGoUp + 1)
      else folderLevelsToGoUp)"
  by pat_completeness auto
termination
proof (relation "measure (\<lambda>(path, n). length path - 3 * n)", goal_cases)
  case 1
  show ?case by simp
next
  case (2 path n)
  then have "at path (3 * n) = 0x2E"
    by (subst (asm) wcsncmp_is_0.simps) (simp add: L_def at_def split: if_splits)
  then have "3 * n < length path"
    by (intro at_nonzero_less) simp
  then show ?case by simp
qed

declare count_folder_levels.simps [simp del]

text \<open>
  The loop that walks back one slash of the root URL for each level.
\<close>

function walk_back :: "wstring \<Rightarrow> nat \<Rightarrow> nat \<Rightarrow> nat" where
  "walk_back root folderLevelsToGoUp lastSlash =
     (if folderLevelsToGoUp > 0 then
        (let currentLastSlash = rfind root 0x2F (size_t_sub lastSlash 1)
         in if currentLastSlash = npos then lastSlash
            else walk_back root (folderLevelsToGoUp - 1) currentLastSlash)
      else lastSlash)"
  by pat_completeness auto
termination
  by (relation "measure (\<lambda>(root, n, lastSlash). n)") auto

declare walk_back.simps [simp del]

text \<open>
  Modelled from the spec: \<^verbatim>\<open>string_util::replace_all\<close> is declared in the missing
  header; "spaces in the final URL are percent-encoded as \<^verbatim>\<open>%20\<close>".
\<close>

definition encode_spaces :: "wstring \<Rightarrow> wstring" where
  "encode_spaces url = concat (map (\<lambda>c. if c = 0x20 then L ''%20'' else [c]) url)"

text \<open>
  \<^verbatim>\<open>html_url_format::operator()\<close> appends the rest of the path with
  \<^verbatim>\<open>m_current_url.append(path + offset, text_length - offset)\<close>. The count is computed
  on \<^verbatim>\<open>size_t\<close>: when the caller's \<open>text_length\<close> is below the offset it wraps
  around to \<open>2 ^ 64 - (offset - text_length)\<close>, more characters than a string can hold,
  and \<^verbatim>\<open>std::wstring::append\<close> throws \<^verbatim>\<open>std::length_error\<close>. The exception leaves
  \<^verbatim>\<open>operator()\<close>; it is the error value of the model.
\<close>

datatype url_error = length_error

definition append_from :: "wstring \<Rightarrow> wstring \<Rightarrow> nat \<Rightarrow> nat \<Rightarrow> url_error + wstring" where
  "append_from url path offset text_length =
     (if text_length < offset then Inl length_error
      else Inr (url @ span path offset (text_length - offset)))"

text \<open>
  \<^verbatim>\<open>html_url_format::operator()\<close>, first half: the chain of tests on the path that
  puts the URL together. The path is a NUL-terminated buffer read from its first
  character, and \<open>text_length\<close> is the length the caller passes with it;
  \<^verbatim>\<open>is_absolute_url\<close> is declared in the missing header and is a parameter of the
  model. (In the branch of the leading slash \<^verbatim>\<open>text_length-1\<close> cannot wrap: the
  function has returned for a \<open>text_length\<close> of zero.)
\<close>

definition assemble_url ::
  "(wstring \<Rightarrow> bool) \<Rightarrow> html_url_format \<Rightarrow> wstring \<Rightarrow> nat \<Rightarrow> url_error + wstring" where
  "assemble_url is_absolute_url u path text_length =
     (if is_absolute_url path then Inr (span path 0 text_length)
      else if at path 0 = 0x3F \<and> m_query u \<noteq> npos then
        Inr (take (m_query u) (m_root_url u) @ span path 0 text_length)
      else if at path 0 = 0x2F then
        (let d = m_root_full_domain u;
             d = (if length d > 1 \<and> d ! (length d - 1) \<noteq> 0x2F then d @ [0x2F] else d)
         in append_from d path 1 text_length)
      else if strnicmp path (Some 0) (L ''./'') 2 then
        append_from (take (m_last_slash u + 1) (m_root_url u)) path 2 text_length
      else if wcsncmp_is_0 path 0 (L ''../'') 0 3 then
        (let folderLevelsToGoUp = count_folder_levels path 1;
             start = 3 * folderLevelsToGoUp;
             lastSlash = walk_back (m_root_url u) folderLevelsToGoUp
                           (size_t_sub (m_last_slash u) 1);
             lastSlash =
               (if (lastSlash < size_t_sub (length (m_root_url u)) 2 \<and> lastSlash > 0) \<and>
                   is_either 0x2F (m_root_url u ! (lastSlash - 1))
                     (m_root_url u ! (lastSlash + 1))
                then find_up (m_root_url u) 0x2F (lastSlash + 2)
                else lastSlash);
             base = (if lastSlash = npos then m_root_url u
                     else take (lastSlash + 1) (m_root_url u))
         in append_from base path start text_length)
      else Inr (take (m_last_slash u + 1) (m_root_url u) @ span path 0 text_length))"

text \<open>
  Second half: the bookmark is cut off, the image name is added to a directory, the
  domain is parsed and the spaces are encoded.
\<close>

definition finish_url :: "html_url_format \<Rightarrow> bool \<Rightarrow> html_url_format" where
  "finish_url u is_image =
     (let bookmark = rfind (m_current_url u) 0x23 npos;
          url = (if bookmark \<noteq> npos then take bookmark (m_current_url u) else m_current_url u);
          url = (if is_image \<and> length url > 1 \<and> url ! (length url - 1) = 0x2F
                 then url @ m_image_name u else url)
      in u\<lparr> m_current_full_domain := parse_domain url, m_current_url := encode_spaces url \<rparr>)"

text \<open>
  The whole call: the exception, or the new state of the object and the returned string,
  \<open>None\<close> for the null pointer.
\<close>

definition resolve ::
  "(wstring \<Rightarrow> bool) \<Rightarrow> html_url_format \<Rightarrow> wstring \<Rightarrow> nat \<Rightarrow> bool \<Rightarrow>
   url_error + (html_url_format \<times> wstring option)" where
  "resolve is_absolute_url u path text_length is_image =
     (if text_length = 0 then Inr (u, None)
      else
        (case assemble_url is_absolute_url u path text_length of
           Inl err \<Rightarrow> Inl err
         | Inr url \<Rightarrow>
             (let u' = finish_url (u\<lparr> m_current_url := url \<rparr>) is_image
              in Inr (u', Some (m_current_url u')))))"

text \<open>
  The directories of a URL, each followed by its slash; used to state what walking back
  over path segments means.
\<close>

definition dir_path :: "wstring list \<Rightarrow> wstring" where
  "dir_path dirs = concat (map (\<lambda>d. d @ [0x2F]) dirs)"

section \<open>The extraction engine: state and string utilities\<close>

text \<open>
  The data members of \<^verbatim>\<open>html_extract_text\<close> the extraction reads and writes. The
  three stacks are counters; their declarations are in the missing header, and the model
  takes them as signed integers, so that a decrement below zero would show. The output
  buffer of the base class is modelled by its contents up to the filtered text length.
\<close>

record html_extract_text =
  m_log :: "wstring list"
  m_is_in_preformatted_text_block_stack :: int
  m_superscript_stack :: int
  m_subscript_stack :: int
  m_title :: wstring
  m_subject :: wstring
  m_description :: wstring
  m_keywords :: wstring
  m_author :: wstring
  m_filtered_text :: wstring




definition set_filtered_text_length :: "nat \<Rightarrow> html_extract_text \<Rightarrow> html_extract_text" where
  "set_filtered_text_length n e = e\<lparr> m_filtered_text := take n (m_filtered_text e) \<rparr>"

definition get_filtered_text_length :: "html_extract_text \<Rightarrow> nat" where
  "get_filtered_text_length e = length (m_filtered_text e)"

definition allocate_text_buffer :: "html_extract_text \<Rightarrow> html_extract_text" where
  "allocate_text_buffer e = e\<lparr> m_filtered_text := [] \<rparr>"


definition clear_log :: "html_extract_text \<Rightarrow> html_extract_text" where
  "clear_log e = e\<lparr> m_log := [] \<rparr>"

definition reset_meta_data :: "html_extract_text \<Rightarrow> html_extract_text" where
  "reset_meta_data e =
     e\<lparr> m_title := [], m_subject := [], m_description := [], m_keywords := [], m_author := [] \<rparr>"









function strnistr_loop :: "wstring \<Rightarrow> nat \<Rightarrow> wstring \<Rightarrow> nat \<Rightarrow> nat option" where
  "strnistr_loop buf q needle limit =
     (if q + length needle \<le> limit then
        (if strnicmp_is_0 buf q needle 0 (length needle) then Some q
         else if at buf q = 0 then None
         else strnistr_loop buf (q + 1) needle limit)
      else None)"
  by pat_completeness auto
termination
  by (relation "measure (\<lambda>(buf, q, needle, limit). length buf - q)")
     (auto simp: at_def split: if_splits)

declare strnistr_loop.simps [simp del]

definition strnistr :: "wstring \<Rightarrow> nat \<Rightarrow> wstring \<Rightarrow> nat \<Rightarrow> nat option" where
  "strnistr buf p needle n =
     (if n = 0 \<or> needle = [] then None else strnistr_loop buf p needle (p + n))"

text \<open>\<^verbatim>\<open>std::wcsstr\<close>: the case-sensitive search up to the terminator.\<close>

function wcsstr :: "wstring \<Rightarrow> nat \<Rightarrow> wstring \<Rightarrow> nat option" where
  "wcsstr buf p needle =
     (if wcsncmp_is_0 buf p needle 0 (length needle) then Some p
      else if at buf p = 0 then None
      else wcsstr buf (p + 1) needle)"
  by pat_completeness auto
termination
  by (relation "measure (\<lambda>(buf, p, needle). length buf - p)") (auto simp: at_def split: if_splits)

declare wcsstr.simps [simp del]

text \<open>
  The characters of a \<^verbatim>\<open>std::wstring\<close> read through \<^verbatim>\<open>c_str()\<close>: up to the first
  terminator.
\<close>

definition c_str :: "wstring \<Rightarrow> wstring" where
  "c_str s = takeWhile (\<lambda>c. c \<noteq> 0) s"

text \<open>
  Modelled from the spec: \<^verbatim>\<open>string_util::stricmp\<close>, \<^verbatim>\<open>trim\<close> and
  \<^verbatim>\<open>remove_extra_spaces\<close> are declared in the missing header. The comparison is the
  case-insensitive equality of two strings; the metadata is stored "trimmed,
  whitespace-collapsed": white space goes from both ends, and of a run of white space the
  first character stays.
\<close>

definition stricmp_is_0 :: "wstring \<Rightarrow> wstring \<Rightarrow> bool" where
  "stricmp_is_0 a b = (map towlower (c_str a) = map towlower (c_str b))"

definition trim :: "wstring \<Rightarrow> wstring" where
  "trim s = rev (dropWhile iswspace (rev (dropWhile iswspace s)))"

fun remove_extra_spaces :: "wstring \<Rightarrow> wstring" where
  "remove_extra_spaces [] = []"
| "remove_extra_spaces [c] = [c]"
| "remove_extra_spaces (c # d # cs) =
     (if iswspace c \<and> iswspace d then remove_extra_spaces (c # cs)
      else c # remove_extra_spaces (d # cs))"








section \<open>The raw text decoder\<close>

























section \<open>The stack-balanced scan, as the specification words it\<close>

text \<open>
  The specification describes \<^verbatim>\<open>find_closing_element\<close> as a scan over the tags of
  the buffer that keeps a depth counter: every opening tag of the element adds one, every
  closing tag of the element takes one away, and the answer is the tag at which the depth
  returns to zero. The definitions below follow these words: \<open>tag_positions\<close> lists the positions of the \<^verbatim>\<open><\<close> characters
  up to the terminator, \<open>tag_kind_at\<close> classifies one tag and \<open>balanced_scan\<close> runs
  the depth counter over a list of tags.
\<close>

definition tag_positions :: "wstring \<Rightarrow> nat \<Rightarrow> nat list" where
  "tag_positions buf p = filter (\<lambda>q. at buf q = 0x3C) [p..<wcs_end buf p]"

datatype tag_kind = Opening | Closing | Other

definition tag_kind_at :: "wstring \<Rightarrow> wstring \<Rightarrow> nat \<Rightarrow> nat \<Rightarrow> tag_kind" where
  "tag_kind_at buf elementTag elementTagLength p =
     (if at buf (p + 1) = 0x2F \<and> compare_element buf (p + 2) elementTag elementTagLength True
      then Closing
      else if compare_element buf (p + 1) elementTag elementTagLength True then Opening
      else Other)"

fun balanced_scan :: "(nat \<Rightarrow> tag_kind) \<Rightarrow> int \<Rightarrow> nat list \<Rightarrow> nat option" where
  "balanced_scan kind depth [] = None"
| "balanced_scan kind depth (p # ps) =
     (let depth' = (case kind p of
                      Opening \<Rightarrow> depth + 1
                    | Closing \<Rightarrow> depth - 1
                    | Other \<Rightarrow> depth)
      in if depth' = 0 then Some p else balanced_scan kind depth' ps)"

text \<open>
  The scan starts after the opening tag when the section begins with one, answers at once
  when the section begins with the closing tag, and covers only the tags that lie
  \<open>elementTagLength + 1\<close> characters before the end of the section.
\<close>

definition balanced_closing_element ::
  "wstring \<Rightarrow> nat \<Rightarrow> nat \<Rightarrow> wstring \<Rightarrow> nat \<Rightarrow> nat option" where
  "balanced_closing_element buf sectionStart sectionEnd elementTag elementTagLength =
     (case tag_positions buf sectionStart of
        [] \<Rightarrow> None
      | first # rest \<Rightarrow>
          if elementTagLength = 0 \<or> first + elementTagLength > sectionEnd then None
          else if compare_element buf (first + 1) elementTag elementTagLength True then
            balanced_scan (tag_kind_at buf elementTag elementTagLength) 1
              (takeWhile (\<lambda>p. p + elementTagLength + 1 < sectionEnd)
                 (tag_positions buf (first + 1 + elementTagLength)))
          else if at buf (first + 1) = 0x2F \<and>
                  compare_element buf (first + 2) elementTag elementTagLength True
          then Some first
          else
            balanced_scan (tag_kind_at buf elementTag elementTagLength) 1
              (takeWhile (\<lambda>p. p + elementTagLength + 1 < sectionEnd)
                 (tag_positions buf sectionStart)))"

section \<open>Properties of the symbol font conversion\<close>





section \<open>Properties of the quote-aware substring search\<close>

text \<open>
  C7. After a partial mismatch \<^verbatim>\<open>stristr_not_quoted\<close> does not resume one character
  past the position it tried: it steps over the \<open>i\<close> characters that matched and one more
  (\<^verbatim>\<open>string += i+1\<close>). In the text \<^verbatim>\<open>aaab\<close> the needle \<^verbatim>\<open>aab\<close> stands at
  offset 1, outside of any quotes; the attempt at offset 0 matches two characters, the
  search resumes at offset 3 and returns null.
\<close>

theorem stristr_not_quoted_skips_overlapping_match:
  "span (L ''aaab'') 1 3 = L ''aab'' \<and>
   stristr_compare (L ''aaab'') 0 (L ''aab'') 3 0 False False = Some (2, False, False) \<and>
   stristr_not_quoted (L ''aaab'') 0 4 (L ''aab'') 3 = None"
  by (simp add: span_def stristr_not_quoted_def stristr_not_quoted_loop.simps
      stristr_compare.simps L_def at_def towlower_def upt_rec)

section \<open>Properties of the element locator\<close>

lemma wcs_end_ge: "p \<le> wcs_end buf p"
proof (induction buf p rule: wcs_end.induct)
  case (1 buf p)
  then show ?case by (subst wcs_end.simps) auto
qed

lemma tag_positions_unfold:
  "tag_positions buf p =
     (if at buf p = 0 then []
      else if at buf p = 0x3C then p # tag_positions buf (p + 1)
      else tag_positions buf (p + 1))"
proof (cases "at buf p = 0")
  case True
  then show ?thesis by (simp add: tag_positions_def wcs_end.simps)
next
  case False
  then have e: "wcs_end buf p = wcs_end buf (p + 1)"
    by (subst wcs_end.simps) simp
  have "p + 1 \<le> wcs_end buf (p + 1)" by (rule wcs_end_ge)
  then have "[p..<wcs_end buf (p + 1)] = p # [p + 1..<wcs_end buf (p + 1)]"
    by (simp add: upt_conv_Cons)
  with False e show ?thesis by (simp add: tag_positions_def)
qed

lemma wcschr_tag_positions:
  "wcschr buf p 0x3C = (case tag_positions buf p of [] \<Rightarrow> None | q # qs \<Rightarrow> Some q)"
proof (induction buf p "0x3C :: nat" rule: wcschr.induct)
  case (1 buf p)
  show ?case
  proof (cases "at buf p = 0x3C")
    case True
    then show ?thesis
      by (subst wcschr.simps, subst tag_positions_unfold) simp
  next
    case False
    show ?thesis
    proof (cases "at buf p = 0")
      case True
      then show ?thesis by (subst wcschr.simps, subst tag_positions_unfold) simp
    next
      case nz: False
      with False 1 show ?thesis
        by (subst wcschr.simps, subst tag_positions_unfold) simp
    qed
  qed
qed

lemma tag_positions_step:
  "wcschr buf p 0x3C = Some q \<Longrightarrow> tag_positions buf p = q # tag_positions buf (q + 1)"
proof (induction buf p "0x3C :: nat" rule: wcschr.induct)
  case (1 buf p)
  show ?case
  proof (cases "at buf p = 0x3C")
    case True
    with 1(2) have "q = p" by (subst (asm) wcschr.simps) simp
    with True show ?thesis by (subst tag_positions_unfold) simp
  next
    case False
    with 1(2) have nz: "at buf p \<noteq> 0" and r: "wcschr buf (p + 1) 0x3C = Some q"
      by (subst (asm) wcschr.simps, simp split: if_splits)+
    from 1(1)[OF False nz r] False nz show ?thesis
      by (subst tag_positions_unfold) simp
  qed
qed

lemma tag_positions_none:
  "wcschr buf p 0x3C = None \<Longrightarrow> tag_positions buf p = []"
  by (simp add: wcschr_tag_positions split: list.splits)

lemma find_closing_element_loop_scan:
  "at buf start = 0x3C \<Longrightarrow>
   find_closing_element_loop buf sectionEnd elementTag n start stackSize =
     balanced_scan (tag_kind_at buf elementTag n) stackSize
       (takeWhile (\<lambda>p. p + n + 1 < sectionEnd) (start # tag_positions buf (start + 1)))"
proof (induction buf sectionEnd elementTag n start stackSize
       rule: find_closing_element_loop.induct)
  case (1 buf sectionEnd elementTag n start stackSize)
  show ?case
  proof (cases "start + n + 1 < sectionEnd")
    case False
    then show ?thesis by (subst find_closing_element_loop.simps) simp
  next
    case True
    define stackSize' where "stackSize' =
       (if at buf (start + 1) = 0x2F \<and> compare_element buf (start + 2) elementTag n True
        then stackSize - 1
        else if compare_element buf (start + 1) elementTag n True
        then stackSize + 1 else stackSize)"
    have k: "(case tag_kind_at buf elementTag n start of
                Opening \<Rightarrow> stackSize + 1 | Closing \<Rightarrow> stackSize - 1 | Other \<Rightarrow> stackSize)
             = stackSize'"
      by (simp add: stackSize'_def tag_kind_at_def)
    show ?thesis
    proof (cases "stackSize' = 0")
      case z: True
      with True k show ?thesis
        by (subst find_closing_element_loop.simps) (simp add: stackSize'_def Let_def)
    next
      case nz: False
      show ?thesis
      proof (cases "wcschr buf (start + 1) 0x3C")
        case None
        with True nz k tag_positions_none[OF None] show ?thesis
          by (subst find_closing_element_loop.simps) (simp add: stackSize'_def Let_def)
      next
        case (Some start')
        from wcschr_Some[OF Some] have lt: "at buf start' = 0x3C" by simp
        have ih: "find_closing_element_loop buf sectionEnd elementTag n start' stackSize' =
            balanced_scan (tag_kind_at buf elementTag n) stackSize'
             (takeWhile (\<lambda>p. p + n + 1 < sectionEnd) (start' # tag_positions buf (start' + 1)))"
          by (rule 1(1)[OF True stackSize'_def nz Some lt])
        with True nz k tag_positions_step[OF Some] Some show ?thesis
          by (subst find_closing_element_loop.simps) (simp add: stackSize'_def Let_def)
      qed
    qed
  qed
qed


lemma find_closing_element_refines:
  "find_closing_element buf sectionStart sectionEnd elementTag n =
   balanced_closing_element buf sectionStart sectionEnd elementTag n"
proof (cases "wcschr buf sectionStart 0x3C")
  case None
  then show ?thesis
    by (simp add: find_closing_element_def balanced_closing_element_def tag_positions_none)
next
  case (Some first)
  note tp = tag_positions_step[OF Some]
  have scan: "\<And>q. (case wcschr buf q 0x3C of None \<Rightarrow> None
              | Some start' \<Rightarrow> find_closing_element_loop buf sectionEnd elementTag n start' 1) =
            balanced_scan (tag_kind_at buf elementTag n) 1
              (takeWhile (\<lambda>p. p + n + 1 < sectionEnd) (tag_positions buf q))"
  proof -
    fix q
    show "(case wcschr buf q 0x3C of None \<Rightarrow> None
              | Some start' \<Rightarrow> find_closing_element_loop buf sectionEnd elementTag n start' 1) =
            balanced_scan (tag_kind_at buf elementTag n) 1
              (takeWhile (\<lambda>p. p + n + 1 < sectionEnd) (tag_positions buf q))"
    proof (cases "wcschr buf q 0x3C")
      case None
      then show ?thesis by (simp add: tag_positions_none)
    next
      case (Some s)
      from wcschr_Some[OF Some] have "at buf s = 0x3C" by simp
      from find_closing_element_loop_scan[OF this] Some tag_positions_step[OF Some]
      show ?thesis by simp
    qed
  qed
  show ?thesis
    using Some tp scan[of sectionStart] scan[of "first + 1 + n"]
    by (simp add: find_closing_element_def balanced_closing_element_def Let_def add.commute add.left_commute)
qed

lemma balanced_scan_closing:
  "balanced_scan kind depth ps = Some p \<Longrightarrow> 1 \<le> depth \<Longrightarrow> kind p = Closing \<and> p \<in> set ps"
proof (induction ps arbitrary: depth)
  case Nil
  then show ?case by simp
next
  case (Cons q qs)
  show ?case
  proof (cases "kind q")
    case Opening
    with Cons.prems have "balanced_scan kind (depth + 1) qs = Some p"
      by (simp add: Let_def split: if_splits)
    from Cons.IH[OF this] Cons.prems(2) show ?thesis by simp
  next
    case Closing
    show ?thesis
    proof (cases "depth - 1 = 0")
      case True
      with Closing Cons.prems show ?thesis by (simp add: Let_def)
    next
      case False
      with Closing Cons.prems have "balanced_scan kind (depth - 1) qs = Some p"
        by (simp add: Let_def)
      moreover from False Cons.prems(2) have "1 \<le> depth - 1" by simp
      ultimately show ?thesis using Cons.IH by simp
    qed
  next
    case Other
    with Cons.prems have "balanced_scan kind depth qs = Some p"
      by (simp add: Let_def split: if_splits)
    from Cons.IH[OF this] Cons.prems(2) show ?thesis by simp
  qed
qed

lemma tag_positions_at: "p \<in> set (tag_positions buf q) \<Longrightarrow> at buf p = 0x3C"
  by (simp add: tag_positions_def)

lemma balanced_closing_element_is_closing_tag:
  assumes "balanced_closing_element buf sectionStart sectionEnd elementTag n = Some p"
  shows "at buf p = 0x3C \<and> at buf (p + 1) = 0x2F \<and> compare_element buf (p + 2) elementTag n True"
proof -
  have scan: "at buf p = 0x3C \<and> at buf (p + 1) = 0x2F \<and> compare_element buf (p + 2) elementTag n True"
    if "balanced_scan (tag_kind_at buf elementTag n) 1
          (takeWhile (\<lambda>p. p + n + 1 < sectionEnd) (tag_positions buf q)) = Some p" for q
  proof -
    from balanced_scan_closing[OF that]
    have k: "tag_kind_at buf elementTag n p = Closing"
      and m: "p \<in> set (takeWhile (\<lambda>p. p + n + 1 < sectionEnd) (tag_positions buf q))"
      by simp_all
    from m have "p \<in> set (tag_positions buf q)" by (rule set_takeWhileD[THEN conjunct1])
    then have "at buf p = 0x3C" by (rule tag_positions_at)
    moreover from k have "at buf (p + 1) = 0x2F \<and> compare_element buf (p + 2) elementTag n True"
      by (simp add: tag_kind_at_def split: if_splits)
    ultimately show ?thesis by simp
  qed
  show ?thesis
  proof (cases "tag_positions buf sectionStart")
    case Nil
    with assms show ?thesis by (simp add: balanced_closing_element_def)
  next
    case (Cons first rest)
    then have "first \<in> set (tag_positions buf sectionStart)" by simp
    then have f: "at buf first = 0x3C" by (rule tag_positions_at)
    from assms Cons f scan[of sectionStart] scan[of "first + 1 + n"] show ?thesis
      by (auto simp: balanced_closing_element_def split: if_splits)
  qed
qed

text \<open>
  C5. \<^verbatim>\<open>find_closing_element\<close> is the stack-balanced scan of the specification: its
  result is the result of running the depth counter over the tags of the section, one up
  for every opening tag of the element and one down for every closing tag of the element,
  answering with the tag at which the depth returns to zero and with "not found" when the
  tags run out first; a position it returns is the \<^verbatim>\<open><\<close> of a closing tag of the
  element. For \<^verbatim>\<open><div><div>X</div></div>\<close> it answers with position 17, the second
  \<^verbatim>\<open></div>\<close>.
\<close>

theorem find_closing_element_stack_balanced:
  "find_closing_element buf sectionStart sectionEnd elementTag n =
     balanced_closing_element buf sectionStart sectionEnd elementTag n \<and>
   (\<forall>p. find_closing_element buf sectionStart sectionEnd elementTag n = Some p \<longrightarrow>
        at buf p = 0x3C \<and> at buf (p + 1) = 0x2F \<and>
        compare_element buf (p + 2) elementTag n True)"
  using find_closing_element_refines balanced_closing_element_is_closing_tag by simp

theorem find_closing_element_stack_balanced_witness:
  "find_closing_element (L ''<div><div>X</div></div>'') 0 23 (L ''div'') 3 = Some 17 \<and>
   at (L ''<div><div>X</div></div>'') 17 = 0x3C \<and>
   at (L ''<div><div>X</div></div>'') 18 = 0x2F \<and>
   span (L ''<div><div>X</div></div>'') 17 6 = L ''</div>'' \<and>
   span (L ''<div><div>X</div></div>'') 11 6 = L ''</div>''"
proof -
  have spec: "balanced_closing_element (L ''<div><div>X</div></div>'') 0 23 (L ''div'') 3 = Some 17"
    by (simp add: L_def at_def towlower_def iswspace_def find_close_tag_loop.simps
        find_close_tag_def compare_element_def strnicmp_def strnicmp_is_0.simps
        balanced_closing_element_def tag_positions_def wcs_end.simps tag_kind_at_def upt_rec)
  note t = find_closing_element_stack_balanced
             [of "L ''<div><div>X</div></div>''" 0 23 "L ''div''" 3]
  from t spec have r: "find_closing_element (L ''<div><div>X</div></div>'') 0 23 (L ''div'') 3 = Some 17"
    by simp
  from t [THEN conjunct2, rule_format, OF r]
  have "at (L ''<div><div>X</div></div>'') 17 = 0x3C \<and>
        at (L ''<div><div>X</div></div>'') (17 + 1) = 0x2F"
    by simp
  moreover have "span (L ''<div><div>X</div></div>'') 17 6 = L ''</div>'' \<and>
                 span (L ''<div><div>X</div></div>'') 11 6 = L ''</div>''"
    by (simp add: span_def L_def at_def upt_rec)
  ultimately show ?thesis using r by simp
qed

section \<open>Properties of URL resolution\<close>

lemma rfind_down_found:
  "i \<le> k \<Longrightarrow> s ! i = c \<Longrightarrow> \<forall>j. i < j \<and> j \<le> k \<longrightarrow> s ! j \<noteq> c \<Longrightarrow> rfind_down s c k = i"
proof (induction s c k rule: rfind_down.induct)
  case (1 s ch k)
  show ?case
  proof (cases "k = i")
    case True
    with 1(3) show ?thesis by (subst rfind_down.simps) simp
  next
    case False
    with 1(2) have lt: "i < k" by simp
    with 1(4) have ne: "s ! k \<noteq> ch" by simp
    from lt have nz: "k \<noteq> 0" by simp
    have "rfind_down s ch (k - 1) = i"
    proof (rule 1(1)[OF ne nz _ 1(3)])
      show "i \<le> k - 1" using lt by simp
      show "\<forall>j. i < j \<and> j \<le> k - 1 \<longrightarrow> s ! j \<noteq> ch" using 1(4) by auto
    qed
    with ne nz show ?thesis by (subst rfind_down.simps) simp
  qed
qed

lemma rfind_down_none:
  "\<forall>j \<le> k. s ! j \<noteq> c \<Longrightarrow> rfind_down s c k = npos"
proof (induction s c k rule: rfind_down.induct)
  case (1 s ch k)
  from 1(2) have ne: "s ! k \<noteq> ch" by simp
  show ?case
  proof (cases "k = 0")
    case True
    with ne show ?thesis by (subst rfind_down.simps) simp
  next
    case False
    have "rfind_down s ch (k - 1) = npos"
    proof (rule 1(1)[OF ne False])
      show "\<forall>j \<le> k - 1. s ! j \<noteq> ch" using 1(2) by auto
    qed
    with ne False show ?thesis by (subst rfind_down.simps) simp
  qed
qed

lemma rfind_found:
  assumes "i < length s" "i \<le> pos" "s ! i = c"
    and "\<forall>j. i < j \<and> j \<le> pos \<and> j < length s \<longrightarrow> s ! j \<noteq> c"
  shows "rfind s c pos = i"
proof -
  from assms(1) have ne: "s \<noteq> []" by auto
  have "rfind_down s c (min pos (length s - 1)) = i"
    using assms by (intro rfind_down_found) auto
  with ne show ?thesis by (simp add: rfind_def)
qed

lemma rfind_none:
  assumes "\<forall>j. j \<le> pos \<and> j < length s \<longrightarrow> s ! j \<noteq> c"
  shows "rfind s c pos = npos"
proof (cases "s = []")
  case True
  then show ?thesis by (simp add: rfind_def)
next
  case False
  then have "length s - 1 < length s" by (cases s) auto
  then have "rfind_down s c (min pos (length s - 1)) = npos"
    using assms by (intro rfind_down_none) auto
  with False show ?thesis by (simp add: rfind_def)
qed

lemma find_up_found:
  "pos \<le> i \<Longrightarrow> i < length s \<Longrightarrow> s ! i = c \<Longrightarrow> \<forall>j. pos \<le> j \<and> j < i \<longrightarrow> s ! j \<noteq> c \<Longrightarrow>
   find_up s c pos = i"
proof (induction s c pos rule: find_up.induct)
  case (1 s ch pos)
  show ?case
  proof (cases "pos = i")
    case True
    with 1 show ?thesis by (subst find_up.simps) simp
  next
    case False
    with 1(2) have lt: "pos < i" by simp
    with 1(5) have ne: "s ! pos \<noteq> ch" by simp
    from lt 1(3) have pl: "pos < length s" by simp
    have "find_up s ch (pos + 1) = i"
      using 1(1)[OF pl ne] lt 1(3,4,5) by simp
    with pl ne show ?thesis by (subst find_up.simps) simp
  qed
qed


lemma rfind_app:
  assumes "c \<notin> set ys" "length xs \<le> pos" "pos \<le> length xs + length ys \<or> zs = []"
  shows "rfind (xs @ c # ys @ zs) c pos = length xs"
proof (rule rfind_found)
  show "length xs < length (xs @ c # ys @ zs)" by simp
  show "length xs \<le> pos" by fact
  show "(xs @ c # ys @ zs) ! length xs = c" by simp
  show "\<forall>j. length xs < j \<and> j \<le> pos \<and> j < length (xs @ c # ys @ zs) \<longrightarrow>
            (xs @ c # ys @ zs) ! j \<noteq> c"
  proof (intro allI impI)
    fix j assume j: "length xs < j \<and> j \<le> pos \<and> j < length (xs @ c # ys @ zs)"
    with assms(3) have "j - length xs - 1 < length ys" by auto
    moreover from j have "(xs @ c # ys @ zs) ! j = (ys @ zs) ! (j - length xs - 1)"
      by (simp add: nth_append nth_Cons')
    ultimately have "(xs @ c # ys @ zs) ! j = ys ! (j - length xs - 1)"
      by (simp add: nth_append)
    with \<open>j - length xs - 1 < length ys\<close> assms(1) show "(xs @ c # ys @ zs) ! j \<noteq> c"
      by (metis nth_mem)
  qed
qed

lemma rfind_absent: "c \<notin> set s \<Longrightarrow> rfind s c pos = npos"
  by (rule rfind_none) auto

lemma find_up_app:
  assumes "c \<notin> set ys" "length xs \<le> pos" "pos \<le> length xs + length ys"
  shows "find_up (xs @ ys @ c # zs) c pos = length xs + length ys"
proof (rule find_up_found)
  show "pos \<le> length xs + length ys" by fact
  show "length xs + length ys < length (xs @ ys @ c # zs)" by simp
  show "(xs @ ys @ c # zs) ! (length xs + length ys) = c"
    by (simp add: nth_append)
  show "\<forall>j. pos \<le> j \<and> j < length xs + length ys \<longrightarrow> (xs @ ys @ c # zs) ! j \<noteq> c"
  proof (intro allI impI)
    fix j assume j: "pos \<le> j \<and> j < length xs + length ys"
    with assms(2) have "j - length xs < length ys" "length xs \<le> j" by auto
    then have "(xs @ ys @ c # zs) ! j = ys ! (j - length xs)"
      by (simp add: nth_append)
    with \<open>j - length xs < length ys\<close> assms(1) show "(xs @ ys @ c # zs) ! j \<noteq> c"
      by (metis nth_mem)
  qed
qed

lemma walk_back_0: "walk_back root 0 x = x"
  by (subst walk_back.simps) simp

lemma walk_back_step:
  "rfind root 0x2F (size_t_sub x 1) = y \<Longrightarrow> y \<noteq> npos \<Longrightarrow>
   walk_back root (Suc k) x = walk_back root k y"
  by (subst walk_back.simps) (simp add: Let_def)

lemma walk_back_stop:
  "rfind root 0x2F (size_t_sub x 1) = npos \<Longrightarrow> walk_back root (Suc k) x = x"
  by (subst walk_back.simps) (simp add: Let_def)


lemma dir_path_snoc: "dir_path (ds @ [d]) = dir_path ds @ d @ [0x2F]"
  by (simp add: dir_path_def)

lemma dir_path_Nil: "dir_path [] = []"
  by (simp add: dir_path_def)

lemma walk_back_domain:
  assumes root: "root = proto @ [0x2F, 0x2F] @ host @ [0x2F] @ T"
    and proto: "proto \<noteq> []" "0x2F \<notin> set proto"
    and host: "0x2F \<notin> set host"
    and len: "length root < npos"
  shows "walk_back root k (length proto + 2 + length host) =
           (if k = 0 then length proto + 2 + length host
            else if k = 1 then length proto + 1 else length proto)"
proof -
  have r1: "rfind root 0x2F (size_t_sub (length proto + 2 + length host) 1) = length proto + 1"
  proof -
    have "rfind ((proto @ [0x2F]) @ 0x2F # host @ ([0x2F] @ T)) 0x2F (length proto + 1 + length host)
            = length (proto @ [0x2F])"
      by (rule rfind_app) (use host in auto)
    then show ?thesis by (simp add: root size_t_sub_def)
  qed
  have r2: "rfind root 0x2F (size_t_sub (length proto + 1) 1) = length proto"
  proof -
    have "rfind (proto @ 0x2F # [] @ ([0x2F] @ host @ [0x2F] @ T)) 0x2F (length proto) = length proto"
      by (rule rfind_app) auto
    then show ?thesis by (simp add: root size_t_sub_def)
  qed
  have r3: "rfind root 0x2F (size_t_sub (length proto) 1) = npos"
  proof (rule rfind_none, intro allI impI)
    fix j assume "j \<le> size_t_sub (length proto) 1 \<and> j < length root"
    with proto(1) have "j < length proto" by (cases proto) (auto simp: size_t_sub_def)
    then have "root ! j = proto ! j" "proto ! j \<in> set proto" by (simp_all add: root nth_append)
    with proto(2) show "root ! j \<noteq> 0x2F" by metis
  qed
  from len root have n1: "length proto + 1 \<noteq> npos" and n0: "length proto \<noteq> npos" by auto
  have w1: "walk_back root (Suc j) (length proto + 2 + length host) =
            walk_back root j (length proto + 1)" for j
    by (rule walk_back_step[OF r1 n1])
  have w2: "walk_back root (Suc j) (length proto + 1) = walk_back root j (length proto)" for j
    by (rule walk_back_step[OF r2 n0])
  have w3: "walk_back root (Suc j) (length proto) = length proto" for j
    by (rule walk_back_stop[OF r3])
  show ?thesis
  proof (cases k)
    case 0
    then show ?thesis by (simp add: walk_back_0)
  next
    case (Suc k1)
    note k = Suc
    show ?thesis
    proof (cases k1)
      case 0
      have "walk_back root (Suc 0) (length proto + 2 + length host) = length proto + 1"
        by (simp only: w1 walk_back_0)
      with k 0 show ?thesis by simp
    next
      case (Suc k2)
      show ?thesis
      proof (cases k2)
        case 0
        have "walk_back root (Suc (Suc 0)) (length proto + 2 + length host) = length proto"
          by (simp only: w1 w2 walk_back_0)
        with k Suc 0 show ?thesis by simp
      next
        case (Suc k3)
        have "walk_back root (Suc (Suc (Suc k3))) (length proto + 2 + length host) = length proto"
          by (simp only: w1 w2 w3)
        with k \<open>k1 = Suc k2\<close> Suc show ?thesis by simp
      qed
    qed
  qed
qed

lemma walk_back_dirs:
  assumes "\<forall>d \<in> set dirs. 0x2F \<notin> set d"
    and "root = B @ [0x2F] @ dir_path dirs @ T"
    and "length root < npos"
  shows "walk_back root k (length B + length (dir_path dirs)) =
           (if k \<le> length dirs then length B + length (dir_path (take (length dirs - k) dirs))
            else walk_back root (k - length dirs) (length B))"
  using assms
proof (induction dirs arbitrary: T k rule: rev_induct)
  case Nil
  then show ?case by (simp add: dir_path_Nil walk_back_0)
next
  case (snoc d ds)
  show ?case
  proof (cases k)
    case 0
    then show ?thesis by (simp add: walk_back_0)
  next
    case (Suc k1)
    have root: "root = B @ [0x2F] @ dir_path ds @ (d @ [0x2F] @ T)"
      using snoc.prems(2) by (simp add: dir_path_snoc)
    obtain X where X: "B @ [0x2F] @ dir_path ds = X @ [0x2F]"
      and lX: "length X = length B + length (dir_path ds)"
    proof (cases ds rule: rev_cases)
      case Nil
      show ?thesis by (rule that[of B]) (simp_all add: Nil dir_path_Nil)
    next
      case (snoc ds' d')
      show ?thesis
        by (rule that[of "B @ [0x2F] @ dir_path ds' @ d'"]) (simp_all add: snoc dir_path_snoc)
    qed
    have "rfind (X @ 0x2F # d @ ([0x2F] @ T)) 0x2F (length X + length d) = length X"
      by (rule rfind_app) (use snoc.prems(1) in auto)
    moreover have "root = X @ 0x2F # d @ ([0x2F] @ T)"
      using root X by simp
    ultimately have r: "rfind root 0x2F (size_t_sub (length B + length (dir_path (ds @ [d]))) 1)
                         = length B + length (dir_path ds)"
      by (simp add: dir_path_snoc size_t_sub_def lX add.assoc)
    from snoc.prems(3) root have ne: "length B + length (dir_path ds) \<noteq> npos" by auto
    have ih: "walk_back root k1 (length B + length (dir_path ds)) =
           (if k1 \<le> length ds then length B + length (dir_path (take (length ds - k1) ds))
            else walk_back root (k1 - length ds) (length B))"
      by (rule snoc.IH[OF _ root snoc.prems(3)]) (use snoc.prems(1) in auto)
    have "walk_back root (Suc k1) (length B + length (dir_path (ds @ [d]))) =
          walk_back root k1 (length B + length (dir_path ds))"
      by (rule walk_back_step[OF r ne])
    with Suc ih show ?thesis by simp
  qed
qed


lemma at_drop: "at (drop p buf) i = at buf (p + i)"
  by (auto simp: at_def)

lemma wcsncmp_is_0_drop:
  "wcsncmp_is_0 buf p lit i n = wcsncmp_is_0 (drop p buf) 0 lit i n"
proof (induction buf p lit i n rule: wcsncmp_is_0.induct)
  case (1 buf p lit i n)
  show ?case
    by (subst wcsncmp_is_0.simps, subst (2) wcsncmp_is_0.simps) (use 1 in \<open>simp add: at_drop\<close>)
qed

lemma at_Cons_0: "at (x # xs) 0 = x"
  by (simp add: at_def)

lemma at_Cons_Suc: "at (x # xs) (Suc i) = at xs i"
  by (simp add: at_def)

lemma at_Nil: "at [] i = 0"
  by (simp add: at_def)

lemma wcsncmp_dotdot_prefix:
  "wcsncmp_is_0 rest 0 (L ''../'') 0 3 = prefix (L ''../'') rest"
proof -
  have e: "wcsncmp_is_0 rest 0 (L ''../'') 0 3 = (at rest 0 = 0x2E \<and> at rest 1 = 0x2E \<and> at rest 2 = 0x2F)"
    apply (subst wcsncmp_is_0.simps)
    apply (subst wcsncmp_is_0.simps)
    apply (subst wcsncmp_is_0.simps)
    apply (subst wcsncmp_is_0.simps)
    apply (simp add: L_def at_def[of "[46, 46, 47]"])
    apply (auto simp: numeral_2_eq_2)
    done
  have p: "prefix (L ''../'') rest = (\<exists>t. rest = 0x2E # 0x2E # 0x2F # t)"
    unfolding L_def prefix_def by simp
  have a: "(at rest 0 = 0x2E \<and> at rest 1 = 0x2E \<and> at rest 2 = 0x2F) = (\<exists>t. rest = 0x2E # 0x2E # 0x2F # t)"
  proof
    assume h: "at rest 0 = 0x2E \<and> at rest 1 = 0x2E \<and> at rest 2 = 0x2F"
    then have "2 < length rest" by (intro at_nonzero_less) simp
    then obtain x r1 where r1: "rest = x # r1" "1 < length r1" by (cases rest) auto
    then obtain y r2 where r2: "r1 = y # r2" "0 < length r2" by (cases r1) auto
    then obtain z t where r3: "r2 = z # t" by (cases r2) auto
    from h have "x = 0x2E" "y = 0x2E" "z = 0x2F"
      by (simp_all add: r1 r2 r3 at_def)
    then show "\<exists>t. rest = 0x2E # 0x2E # 0x2F # t" by (simp add: r1 r2 r3)
  next
    assume "\<exists>t. rest = 0x2E # 0x2E # 0x2F # t"
    then obtain t where "rest = 0x2E # 0x2E # 0x2F # t" ..
    then show "at rest 0 = 0x2E \<and> at rest 1 = 0x2E \<and> at rest 2 = 0x2F"
      by (simp add: at_def)
  qed
  show ?thesis
    by (simp only: e p a)
qed

lemma length_dots: "length (concat (replicate k (L ''../''))) = 3 * k"
  by (induction k) (simp_all add: L_def)

lemma count_folder_levels_replicate:
  assumes "\<not> prefix (L ''../'') rest" "j \<le> k"
  shows "count_folder_levels (concat (replicate k (L ''../'')) @ rest) j = k"
  using assms(2)
proof (induction "k - j" arbitrary: j)
  case 0
  then have jk: "j = k" by simp
  have d: "drop (3 * k) (concat (replicate k (L ''../'')) @ rest) = rest"
    by (simp add: length_dots)
  have "\<not> wcsncmp_is_0 (concat (replicate k (L ''../'')) @ rest) (3 * k) (L ''../'') 0 3"
    by (subst wcsncmp_is_0_drop) (simp only: d wcsncmp_dotdot_prefix assms(1) not_False_eq_True)
  then show ?case
    by (subst count_folder_levels.simps) (simp add: jk)
next
  case (Suc m)
  then have lt: "j < k" and m: "m = k - (j + 1)" by simp_all
  define i where "i = k - Suc j"
  from lt have k: "k = j + Suc i" by (simp add: i_def)
  have "replicate k (L ''../'') = replicate j (L ''../'') @ replicate (Suc i) (L ''../'')"
    unfolding k by (rule replicate_add)
  then have "concat (replicate k (L ''../'')) = concat (replicate j (L ''../'')) @ L ''../'' @ concat (replicate i (L ''../''))"
    by simp
  then have "drop (3 * j) (concat (replicate k (L ''../'')) @ rest) =
          L ''../'' @ concat (replicate i (L ''../'')) @ rest"
    by (simp add: length_dots)
  then have "wcsncmp_is_0 (concat (replicate k (L ''../'')) @ rest) (3 * j) (L ''../'') 0 3"
    by (subst wcsncmp_is_0_drop) (simp add: wcsncmp_dotdot_prefix)
  moreover have "count_folder_levels (concat (replicate k (L ''../'')) @ rest) (j + 1) = k"
    by (rule Suc.hyps(1)[OF m]) (use lt in simp)
  ultimately show ?case
    by (subst count_folder_levels.simps) simp
qed

lemma span_all: "span buf p (length buf - p) = drop p buf"
proof (rule nth_equalityI)
  show "length (span buf p (length buf - p)) = length (drop p buf)"
    by (simp add: span_def)
next
  fix i assume "i < length (span buf p (length buf - p))"
  then have i: "i < length buf - p" by (simp add: span_def)
  then have "p + i < length buf" by simp
  with i show "span buf p (length buf - p) ! i = drop p buf ! i"
    by (simp add: span_def at_def)
qed


lemma dir_path_append: "dir_path (a @ b) = dir_path a @ dir_path b"
  by (simp add: dir_path_def)

lemma dirs_split:
  assumes "host \<noteq> []" "\<forall>d \<in> set dirs. d \<noteq> [] \<and> 0x2F \<notin> set d" "0x2F \<notin> set host"
  obtains X where "(proto @ [0x2F, 0x2F] @ host) @ [0x2F] @ dir_path dirs = X @ [0x2F]"
    and "length X = length (proto @ [0x2F, 0x2F] @ host) + length (dir_path dirs)"
    and "X \<noteq> []" and "last X \<noteq> 0x2F"
proof (cases dirs rule: rev_cases)
  case Nil
  show ?thesis
  proof (rule that[of "proto @ [0x2F, 0x2F] @ host"])
    have "last host \<noteq> 0x2F" using assms(1,3) by (metis last_in_set)
    then show "last (proto @ [0x2F, 0x2F] @ host) \<noteq> 0x2F"
      using assms(1) by simp
  qed (simp_all add: Nil dir_path_Nil)
next
  case (snoc ds d)
  with assms(2) have d: "d \<noteq> []" "0x2F \<notin> set d" by auto
  show ?thesis
  proof (rule that[of "(proto @ [0x2F, 0x2F] @ host) @ [0x2F] @ dir_path ds @ d"])
    have "last d \<noteq> 0x2F" using d by (metis last_in_set)
    then show "last ((proto @ [0x2F, 0x2F] @ host) @ [0x2F] @ dir_path ds @ d) \<noteq> 0x2F"
      using d(1) by simp
  qed (simp_all add: snoc dir_path_snoc)
qed

lemma dir_path_head:
  assumes "\<forall>d \<in> set ds. d \<noteq> [] \<and> 0x2F \<notin> set d" "0x2F \<notin> set leaf" "dir_path ds @ leaf \<noteq> []"
  shows "(dir_path ds @ leaf) ! 0 \<noteq> 0x2F"
proof (cases ds)
  case Nil
  with assms(3) have "leaf \<noteq> []" by (simp add: dir_path_Nil)
  then have "leaf ! 0 \<in> set leaf" by simp
  with assms(2) Nil show ?thesis by (auto simp: dir_path_Nil)
next
  case (Cons d ds')
  with assms(1) have d: "d \<noteq> []" "0x2F \<notin> set d" by auto
  then have "d ! 0 \<in> set d" by simp
  moreover have "(dir_path ds @ leaf) ! 0 = d ! 0"
    using d(1) by (simp add: Cons dir_path_def nth_append)
  ultimately show ?thesis using d(2) by auto
qed

lemma find_last_directory_structured:
  assumes root: "root = proto @ [0x2F, 0x2F] @ host @ [0x2F] @ dir_path dirs @ leaf"
    and host: "host \<noteq> []" "0x2F \<notin> set host"
    and dirs: "\<forall>d \<in> set dirs. d \<noteq> [] \<and> 0x2F \<notin> set d"
    and fl: "0x2F \<notin> set leaf"
    and q: "0x3F \<notin> set root"
    and len: "length root < npos"
  shows "find_last_directory root =
           (length (proto @ [0x2F, 0x2F] @ host) + length (dir_path dirs), root, npos)"
proof -
  obtain X where X: "(proto @ [0x2F, 0x2F] @ host) @ [0x2F] @ dir_path dirs = X @ [0x2F]"
    and lX: "length X = length (proto @ [0x2F, 0x2F] @ host) + length (dir_path dirs)"
    and Xne: "X \<noteq> []" and Xl: "last X \<noteq> 0x2F"
    using dirs_split[OF host(1) dirs host(2)] by blast
  have rX: "root = X @ 0x2F # leaf @ []"
    using root X by simp
  have s: "rfind root 0x2F npos = length X"
    unfolding rX by (rule rfind_app) (use fl len rX in auto)
  have qn: "rfind root 0x3F npos = npos"
    by (rule rfind_absent[OF q])
  have "root ! (length X - 1) = last X"
    using Xne by (simp add: rX nth_append last_conv_nth)
  with Xl have ns: "root ! (length X - 1) \<noteq> 0x2F" by simp
  from len rX have nn: "length X \<noteq> npos" by auto
  show ?thesis
    unfolding find_last_directory_def Let_def s qn
    using ns nn by (simp add: lX)
qed


lemma strnicmp_dot_slash:
  "at path 0 = 0x2E \<Longrightarrow> at path 1 = 0x2E \<Longrightarrow> \<not> strnicmp path (Some 0) (L ''./'') 2"
  unfolding strnicmp_def
  apply simp
  apply (subst strnicmp_is_0.simps)
  apply (subst strnicmp_is_0.simps)
  apply (simp add: L_def at_def[of "[46, 47]"] towlower_def)
  done

lemma walk_back_first:
  assumes root: "root = proto @ [0x2F, 0x2F] @ host @ [0x2F] @ dir_path dirs @ leaf"
    and host: "host \<noteq> []" "0x2F \<notin> set host"
    and dirs: "\<forall>d \<in> set dirs. d \<noteq> [] \<and> 0x2F \<notin> set d"
    and len: "length root < npos"
  shows "walk_back root (Suc k1)
           (size_t_sub (length (proto @ [0x2F, 0x2F] @ host) + length (dir_path dirs)) 1) =
         walk_back root (Suc k1) (length (proto @ [0x2F, 0x2F] @ host) + length (dir_path dirs))"
proof -
  let ?P = "length (proto @ [0x2F, 0x2F] @ host) + length (dir_path dirs)"
  have "\<exists>y. y \<noteq> npos \<and> rfind root 0x2F (?P - 2) = y \<and> rfind root 0x2F (?P - 1) = y"
  proof (cases dirs rule: rev_cases)
    case Nil
    have a: "rfind ((proto @ [0x2F]) @ 0x2F # host @ ([0x2F] @ leaf)) 0x2F (length proto + length host)
            = length (proto @ [0x2F])"
      by (rule rfind_app) (use host in \<open>auto simp: Suc_le_eq\<close>)
    have b: "rfind ((proto @ [0x2F]) @ 0x2F # host @ ([0x2F] @ leaf)) 0x2F (length proto + length host + 1)
            = length (proto @ [0x2F])"
      by (rule rfind_app) (use host in auto)
    have r: "root = (proto @ [0x2F]) @ 0x2F # host @ ([0x2F] @ leaf)"
      by (simp add: root Nil dir_path_Nil)
    have n: "length (proto @ [0x2F]) \<noteq> npos" using len r by auto
    have p2: "?P - 2 = length proto + length host" and p1: "?P - 1 = length proto + length host + 1"
      by (simp_all add: Nil dir_path_Nil)
    show ?thesis
      unfolding p2 p1 using a b n r by blast
  next
    case (snoc ds d)
    with dirs have d: "d \<noteq> []" "0x2F \<notin> set d" and ds: "\<forall>d \<in> set ds. d \<noteq> [] \<and> 0x2F \<notin> set d"
      by auto
    obtain X where X: "(proto @ [0x2F, 0x2F] @ host) @ [0x2F] @ dir_path ds = X @ [0x2F]"
      and lX: "length X = length (proto @ [0x2F, 0x2F] @ host) + length (dir_path ds)"
      using dirs_split[OF host(1) ds host(2)] by blast
    have r: "root = X @ 0x2F # d @ ([0x2F] @ leaf)"
      using root X by (simp add: snoc dir_path_snoc)
    from d(1) have ld: "1 \<le> length d" by (cases d) auto
    have a: "rfind (X @ 0x2F # d @ ([0x2F] @ leaf)) 0x2F (length X + length d - 1) = length X"
      by (rule rfind_app) (use d ld in auto)
    have b: "rfind (X @ 0x2F # d @ ([0x2F] @ leaf)) 0x2F (length X + length d) = length X"
      by (rule rfind_app) (use d in auto)
    have n: "length X \<noteq> npos" using len r by auto
    have p2: "?P - 2 = length X + length d - 1" and p1: "?P - 1 = length X + length d"
      by (simp_all add: snoc dir_path_snoc lX)
    show ?thesis
      unfolding p2 p1 using a b n r by blast
  qed
  then obtain y where y: "y \<noteq> npos" "rfind root 0x2F (?P - 2) = y" "rfind root 0x2F (?P - 1) = y"
    by blast
  have P: "2 \<le> ?P" by simp
  have s1: "size_t_sub (size_t_sub ?P 1) 1 = ?P - 2" and s2: "size_t_sub ?P 1 = ?P - 1"
    using P by (simp_all add: size_t_sub_def)
  have "walk_back root (Suc k1) (size_t_sub ?P 1) = walk_back root k1 y"
    by (rule walk_back_step[OF _ y(1)]) (simp only: s1 y(2))
  moreover have "walk_back root (Suc k1) ?P = walk_back root k1 y"
    by (rule walk_back_step[OF _ y(1)]) (simp only: s2 y(3))
  ultimately show ?thesis by simp
qed


lemma take_prefix_len: "n = length xs \<Longrightarrow> take n (xs @ ys) = xs"
  by simp

lemma parent_base:
  assumes root: "root = proto @ [0x2F, 0x2F] @ host @ [0x2F] @ dir_path dirs @ leaf"
    and proto: "proto \<noteq> []" "0x2F \<notin> set proto"
    and host: "host \<noteq> []" "0x2F \<notin> set host"
    and dirs: "\<forall>d \<in> set dirs. d \<noteq> [] \<and> 0x2F \<notin> set d"
    and fl: "0x2F \<notin> set leaf"
    and len: "length root < npos"
    and k: "1 \<le> k"
    and ls: "ls = walk_back root k
                  (size_t_sub (length (proto @ [0x2F, 0x2F] @ host) + length (dir_path dirs)) 1)"
    and ls': "ls' = (if (ls < size_t_sub (length root) 2 \<and> ls > 0) \<and>
                      is_either 0x2F (root ! (ls - 1)) (root ! (ls + 1))
                   then find_up root 0x2F (ls + 2) else ls)"
  shows "(if ls' = npos then root else take (ls' + 1) root) =
         proto @ [0x2F, 0x2F] @ host @ [0x2F] @ dir_path (take (length dirs - k) dirs)"
proof -
  let ?B = "proto @ [0x2F, 0x2F] @ host"
  let ?n = "length dirs"
  from k obtain k1 where k1: "k = Suc k1" by (cases k) auto
  have rB: "root = ?B @ [0x2F] @ dir_path dirs @ leaf" using root by simp
  have lr: "length ?B + 1 \<le> length root" using root by simp
  have l2: "size_t_sub (length root) 2 = length root - 2"
    using lr by (simp add: size_t_sub_def)
  have hl: "1 \<le> length host" using host(1) by (cases host) auto
  have pl: "1 \<le> length proto" using proto(1) by (cases proto) auto
  have L1: "ls = walk_back root k (length ?B + length (dir_path dirs))"
    unfolding ls k1 by (rule walk_back_first[OF root host dirs len])
  have L2: "ls = (if k \<le> ?n then length ?B + length (dir_path (take (?n - k) dirs))
                  else walk_back root (k - ?n) (length ?B))"
    unfolding L1 by (rule walk_back_dirs[OF _ rB len]) (use dirs in auto)
  have dom: "walk_back root j (length proto + 2 + length host) =
           (if j = 0 then length proto + 2 + length host
            else if j = 1 then length proto + 1 else length proto)" for j
    by (rule walk_back_domain[OF _ proto host(2) len]) (simp add: root)
  have lB: "length ?B = length proto + 2 + length host" by simp
  have fu: "find_up root 0x2F pos = length ?B"
    if "length proto + 2 \<le> pos" "pos \<le> length proto + 2 + length host" for pos
  proof -
    have "find_up ((proto @ [0x2F, 0x2F]) @ host @ 0x2F # (dir_path dirs @ leaf)) 0x2F pos
           = length (proto @ [0x2F, 0x2F]) + length host"
      by (rule find_up_app) (use host that in auto)
    then show ?thesis by (simp add: root)
  qed
  have rB': "root = (?B @ [0x2F]) @ (dir_path dirs @ leaf)" using root by simp
  have tk: "take (length ?B + 1) root = ?B @ [0x2F]"
    by (subst rB', rule take_prefix_len) simp
  have nB: "length ?B \<noteq> npos" using len lr by auto
  show ?thesis
  proof (cases "k \<le> ?n")
    case True
    define j where "j = ?n - k"
    have dj: "dirs = take j dirs @ drop j dirs" by simp
    have dsj: "\<forall>d \<in> set (take j dirs). d \<noteq> [] \<and> 0x2F \<notin> set d"
      using dirs by (meson in_set_takeD)
    have dsd: "\<forall>d \<in> set (drop j dirs). d \<noteq> [] \<and> 0x2F \<notin> set d"
      using dirs by (meson in_set_dropD)
    obtain X where X: "?B @ [0x2F] @ dir_path (take j dirs) = X @ [0x2F]"
      and lX: "length X = length ?B + length (dir_path (take j dirs))"
      and Xne: "X \<noteq> []" and Xl: "last X \<noteq> 0x2F"
      using dirs_split[OF host(1) dsj host(2)] by blast
    let ?Z = "dir_path (drop j dirs) @ leaf"
    have "dir_path dirs = dir_path (take j dirs) @ dir_path (drop j dirs)"
      by (subst dj, subst dir_path_append) simp
    then have rX: "root = X @ [0x2F] @ ?Z"
      using rB X by simp
    have LX: "ls = length X" using L2 True by (simp add: lX j_def)
    have a: "root ! (ls - 1) \<noteq> 0x2F"
    proof -
      have "root ! (length X - 1) = last X"
        using Xne by (simp add: rX nth_append last_conv_nth)
      with Xl LX show ?thesis by simp
    qed
    have b: "root ! (ls + 1) \<noteq> 0x2F" if "ls < length root - 2"
    proof -
      from that have "?Z \<noteq> []" using rX LX by auto
      then have "?Z ! 0 \<noteq> 0x2F" by (rule dir_path_head[OF dsd fl])
      moreover have "root ! (ls + 1) = ?Z ! 0"
        by (simp add: rX LX nth_append)
      ultimately show ?thesis by simp
    qed
    have "ls' = ls"
      unfolding ls' l2 using a b by (auto simp: is_either_def)
    moreover have "ls \<noteq> npos" using LX len rX by auto
    moreover have "take (ls + 1) root = X @ [0x2F]"
    proof -
      have "root = (X @ [0x2F]) @ ?Z" using rX by simp
      then show ?thesis by (subst \<open>root = (X @ [0x2F]) @ ?Z\<close>, intro take_prefix_len) (simp add: LX)
    qed
    ultimately show ?thesis using X by (simp add: j_def)
  next
    case False
    then have t0: "dir_path (take (?n - k) dirs) = []" by (simp add: dir_path_Nil)
    have Lv: "ls = (if k - ?n = 1 then length proto + 1 else length proto)"
      using L2 False dom[of "k - ?n"] by (simp add: lB)
    have lr4: "length proto + 4 \<le> length root" using hl root by simp
    have "ls' = length ?B"
    proof (cases "k - ?n = 1")
      case True
      then have LL: "ls = length proto + 1" using Lv by simp
      have "root ! (ls - 1) = 0x2F" by (simp add: LL root nth_append)
      moreover have "ls < length root - 2 \<and> ls > 0" using lr4 LL by arith
      ultimately have "ls' = find_up root 0x2F (ls + 2)"
        unfolding ls' l2 by (simp add: is_either_def)
      also have "\<dots> = length ?B"
        unfolding LL by (rule fu) (use hl in auto)
      finally show ?thesis .
    next
      case F: False
      then have LL: "ls = length proto" using Lv by simp
      have "root ! (ls + 1) = 0x2F" by (simp add: LL root nth_append)
      moreover have "ls < length root - 2 \<and> ls > 0" using lr4 pl LL by arith
      ultimately have "ls' = find_up root 0x2F (ls + 2)"
        unfolding ls' l2 by (simp add: is_either_def)
      also have "\<dots> = length ?B"
        unfolding LL by (rule fu) auto
      finally show ?thesis .
    qed
    with nB tk show ?thesis unfolding t0 by simp
  qed
qed


lemma html_url_format_init_structured:
  assumes root: "root = proto @ [0x2F, 0x2F] @ host @ [0x2F] @ dir_path dirs @ leaf"
    and host: "host \<noteq> []" "0x2F \<notin> set host"
    and dirs: "\<forall>d \<in> set dirs. d \<noteq> [] \<and> 0x2F \<notin> set d"
    and fl: "0x2F \<notin> set leaf"
    and q: "0x3F \<notin> set root"
    and len: "length root < npos"
  shows "m_root_url (html_url_format_init root) = root \<and>
         m_last_slash (html_url_format_init root) =
           length (proto @ [0x2F, 0x2F] @ host) + length (dir_path dirs) \<and>
         m_query (html_url_format_init root) = npos"
  unfolding html_url_format_init_def find_last_directory_structured[OF root host dirs fl q len]
  by (simp add: has_query_def)

lemma at_append_left: "i < length xs \<Longrightarrow> at (xs @ ys) i = xs ! i"
  by (simp add: at_def nth_append)

lemma assemble_url_parent_relative:
  assumes root: "root = proto @ [0x2F, 0x2F] @ host @ [0x2F] @ dir_path dirs @ leaf"
    and proto: "proto \<noteq> []" "0x2F \<notin> set proto"
    and host: "host \<noteq> []" "0x2F \<notin> set host"
    and dirs: "\<forall>d \<in> set dirs. d \<noteq> [] \<and> 0x2F \<notin> set d"
    and fl: "0x2F \<notin> set leaf"
    and q: "0x3F \<notin> set root"
    and len: "length root < npos"
    and path: "path = concat (replicate k (L ''../'')) @ rest"
    and k: "1 \<le> k"
    and rest: "\<not> prefix (L ''../'') rest"
    and na: "\<not> is_absolute_url path"
  shows "assemble_url is_absolute_url (html_url_format_init root) path text_length =
         (if text_length < 3 * k then Inl length_error
          else Inr (proto @ [0x2F, 0x2F] @ host @ [0x2F] @
                    dir_path (take (length dirs - k) dirs) @
                    span path (3 * k) (text_length - 3 * k)))"
proof -
  let ?u = "html_url_format_init root"
  note u = html_url_format_init_structured[OF root host dirs fl q len]
  from k obtain k1 where k1: "k = Suc k1" by (cases k) auto
  have pp: "path = L ''../'' @ (concat (replicate k1 (L ''../'')) @ rest)"
    by (simp add: path k1)
  have c0: "at path 0 = 0x2E" and c1: "at path 1 = 0x2E"
    by (simp_all add: pp L_def at_def)
  have b1: "\<not> (at path 0 = 0x3F \<and> m_query ?u \<noteq> npos)" using c0 by simp
  have b2: "at path 0 \<noteq> 0x2F" using c0 by simp
  have b3: "\<not> strnicmp path (Some 0) (L ''./'') 2"
    by (rule strnicmp_dot_slash[OF c0 c1])
  have b4: "wcsncmp_is_0 path 0 (L ''../'') 0 3"
    unfolding wcsncmp_dotdot_prefix by (simp add: pp)
  have cnt: "count_folder_levels path 1 = k"
    unfolding path by (rule count_folder_levels_replicate[OF rest k])
  have base: "(if ls' = npos then root else take (ls' + 1) root) =
         proto @ [0x2F, 0x2F] @ host @ [0x2F] @ dir_path (take (length dirs - k) dirs)"
    if "ls = walk_back root k
                  (size_t_sub (length (proto @ [0x2F, 0x2F] @ host) + length (dir_path dirs)) 1)"
       "ls' = (if (ls < size_t_sub (length root) 2 \<and> ls > 0) \<and>
                      is_either 0x2F (root ! (ls - 1)) (root ! (ls + 1))
                   then find_up root 0x2F (ls + 2) else ls)" for ls ls'
    by (rule parent_base[OF root proto host dirs fl len k that])
  show ?thesis
    unfolding assemble_url_def Let_def append_from_def
    using na b1 b2 b3 b4
    by (simp only: if_False if_True cnt u base[OF refl refl] append_assoc)
qed

lemmas url_eval = L_def at_def towlower_def npos_def rfind_def rfind_down.simps find_up.simps
  find_last_directory_def parse_domain_def strnicmp_def strnicmp_is_0.simps has_query_def
  html_url_format_init_def encode_spaces_def finish_url_def Let_def

lemmas path_eval = assemble_url_def append_from_def resolve_def span_def wcsncmp_is_0.simps
  count_folder_levels.simps walk_back.simps size_t_sub_def is_either_def upt_rec

text \<open>
  The examples of the specification: with the root \<^verbatim>\<open>http://a.com/x/y.html\<close> the paths
  \<^verbatim>\<open>../z.html\<close>, \<^verbatim>\<open>./z.html\<close> and \<^verbatim>\<open>/abs.html\<close> resolve to
  \<^verbatim>\<open>http://a.com/z.html\<close>, \<^verbatim>\<open>http://a.com/x/z.html\<close> and
  \<^verbatim>\<open>http://a.com/abs.html\<close>.
\<close>

lemma html_url_format_init_example:
  "html_url_format_init (L ''http://a.com/x/y.html'') =
     \<lparr> m_root_url = L ''http://a.com/x/y.html'', m_current_url = L ''http://a.com/x/y.html'',
       m_root_full_domain = L ''http://a.com'', m_current_full_domain = L ''http://a.com'',
       m_image_name = [], m_last_slash = 14, m_query = npos \<rparr>"
  by (simp add: url_eval cong: let_weak_cong)

lemma resolve_examples:
  "map_sum id snd (resolve (\<lambda>p. False) (html_url_format_init (L ''http://a.com/x/y.html''))
          (L ''../z.html'') 9 False) = Inr (Some (L ''http://a.com/z.html''))"
  "map_sum id snd (resolve (\<lambda>p. False) (html_url_format_init (L ''http://a.com/x/y.html''))
          (L ''./z.html'') 8 False) = Inr (Some (L ''http://a.com/x/z.html''))"
  "map_sum id snd (resolve (\<lambda>p. False) (html_url_format_init (L ''http://a.com/x/y.html''))
          (L ''/abs.html'') 9 False) = Inr (Some (L ''http://a.com/abs.html''))"
  unfolding html_url_format_init_example
  by (simp_all add: url_eval path_eval cong: let_weak_cong)

lemma html_url_format_init_empty_segment:
  "html_url_format_init (L ''http://a.com//x/y.html'') =
     \<lparr> m_root_url = L ''http://a.com//x/y.html'', m_current_url = L ''http://a.com//x/y.html'',
       m_root_full_domain = L ''http://a.com'', m_current_full_domain = L ''http://a.com'',
       m_image_name = [], m_last_slash = 15, m_query = npos \<rparr>"
  by (simp add: url_eval cong: let_weak_cong)

text \<open>
  C6. A leading \<^verbatim>\<open>../\<close> does not always walk back one path segment. The test that
  keeps the walk from passing the protocol separator looks for a slash next to the slash
  the walk stopped at, and takes any such pair for the separator. The root
  \<^verbatim>\<open>http://a.com//x/y.html\<close> has the directory \<^verbatim>\<open>x\<close> under an empty path segment:
  the walk for \<^verbatim>\<open>../z\<close> goes from the slash after \<^verbatim>\<open>x\<close> (offset 15) back to
  offset 13, the test finds the slash at offset 12 beside it and moves forward again to
  the next slash from offset 15 on, which is the slash after \<^verbatim>\<open>x\<close>. The path resolves
  to \<^verbatim>\<open>http://a.com//x/z\<close>, inside the directory it was to leave and the same as
  \<^verbatim>\<open>./z\<close>, for every \<^verbatim>\<open>is_absolute_url\<close> that takes the two paths as relative.
\<close>

theorem resolve_parent_relative_after_empty_segment:
  assumes "\<not> is_absolute_url (L ''../z'')" and "\<not> is_absolute_url (L ''./z'')"
  shows
    "m_last_slash (html_url_format_init (L ''http://a.com//x/y.html'')) = 15 \<and>
     walk_back (L ''http://a.com//x/y.html'') 1 14 = 13 \<and>
     find_up (L ''http://a.com//x/y.html'') 0x2F 15 = 15 \<and>
     map_sum id snd
       (resolve is_absolute_url (html_url_format_init (L ''http://a.com//x/y.html''))
          (L ''../z'') 4 False) = Inr (Some (L ''http://a.com//x/z'')) \<and>
     map_sum id snd
       (resolve is_absolute_url (html_url_format_init (L ''http://a.com//x/y.html''))
          (L ''./z'') 3 False) = Inr (Some (L ''http://a.com//x/z''))"
  unfolding html_url_format_init_empty_segment
  using assms
  by (simp add: url_eval path_eval cong: let_weak_cong)

theorem resolve_parent_relative_after_empty_segment_witness:
  "map_sum id snd
     (resolve (\<lambda>path. False) (html_url_format_init (L ''http://a.com//x/y.html''))
        (L ''../z'') 4 False) = Inr (Some (L ''http://a.com//x/z''))"
  using resolve_parent_relative_after_empty_segment [of "\<lambda>path. False"]
  by simp


section \<open>Properties of the raw text decoder\<close>



















end
